theory Spec2Isabelle
  imports Main "HOL-Library.Word"
begin

section \<open>Byte and bit buffers of srslte/common/byte_buffer.h\<close>

text \<open>
  The header declares three types: \<open>buffer_latency_calc\<close>, \<open>byte_buffer_t\<close> and
  \<open>bit_buffer_t\<close>. A buffer object owns a fixed array \<open>buffer\<close> and a pointer \<open>msg\<close>
  into it. The pointer is modelled by its distance \<open>msg - buffer\<close> in bytes, an \<open>int\<close>,
  since \<open>msg\<close> is a public member that callers move in both directions.

  The macros \<open>SRSLTE_MAX_BUFFER_SIZE_BYTES\<close>, \<open>SRSLTE_MAX_BUFFER_SIZE_BITS\<close> and
  \<open>SRSLTE_BUFFER_HEADER_OFFSET\<close> come from \<open>common.h\<close>. They are parameters here: the
  array size is the length of the list \<open>buffer\<close>, and the header offset is the argument
  \<open>hdr\<close> of every operation that mentions it.

  None of the member functions raises, aborts or returns early on a size. The only way
  they can go wrong is a \<open>memcpy\<close> or \<open>std::fill\<close> that leaves an array, which C++ leaves
  undefined. That is the value \<open>Inl Undefined_behaviour\<close> of the model.
\<close>

subsection \<open>Outcomes\<close>

datatype fault =
  Undefined_behaviour   \<comment> \<open>a memory access outside the array it addresses\<close>
| Fatal_bounds_error    \<comment> \<open>a detected bounds violation; no function of the header produces it\<close>

type_synonym byte = "8 word"
type_synonym uint32_t = "32 word"
type_synonym size_t = "64 word"

subsection \<open>Raw memory: reading and writing a run of bytes of an array\<close>

text \<open>
  \<open>load a off n\<close> reads \<open>n\<close> bytes of the array \<open>a\<close> from offset \<open>off\<close>, and
  \<open>store a off xs\<close> writes the bytes \<open>xs\<close> to \<open>a\<close> from offset \<open>off\<close>. Each byte is
  accessed in turn, and the first one outside the array makes the whole call undefined.
\<close>

fun load :: "byte list \<Rightarrow> int \<Rightarrow> nat \<Rightarrow> fault + byte list" where
  "load a off 0 = Inr []"
| "load a off (Suc n) =
     (if 0 \<le> off \<and> off < int (length a)
      then (case load a (off + 1) n of
              Inl e \<Rightarrow> Inl e
            | Inr bs \<Rightarrow> Inr (a ! nat off # bs))
      else Inl Undefined_behaviour)"

fun store :: "byte list \<Rightarrow> int \<Rightarrow> byte list \<Rightarrow> fault + byte list" where
  "store a off [] = Inr a"
| "store a off (x # xs) =
     (if 0 \<le> off \<and> off < int (length a)
      then store (a[nat off := x]) (off + 1) xs
      else Inl Undefined_behaviour)"

text \<open>\<open>memcpy(dst + doff, src + soff, n)\<close> between two distinct arrays.\<close>

definition memcpy :: "byte list \<Rightarrow> int \<Rightarrow> byte list \<Rightarrow> int \<Rightarrow> nat \<Rightarrow> fault + byte list" where
  "memcpy dst doff src soff n =
     (case load src soff n of
        Inl e \<Rightarrow> Inl e
      | Inr bs \<Rightarrow> store dst doff bs)"

subsection \<open>Latency tracker\<close>

text \<open>
  A \<open>time_point\<close> is a number of clock ticks since the epoch of
  \<open>high_resolution_clock\<close>. Reading the clock is the argument \<open>now\<close>.
  \<open>ENABLE_TIMESTAMP\<close> is defined in the header, so the tracker has both members.
\<close>

type_synonym time_point = int

record buffer_latency_calc =
  tp :: time_point
  timestamp_is_set :: bool

text \<open>Default member initialisers: the epoch, and \<open>timestamp_is_set = false\<close>.\<close>

definition buffer_latency_calc_init :: buffer_latency_calc where
  "buffer_latency_calc_init = \<lparr>buffer_latency_calc.tp = 0, timestamp_is_set = False\<rparr>"

definition latency_clear :: "buffer_latency_calc \<Rightarrow> buffer_latency_calc" where
  "latency_clear t = t\<lparr>timestamp_is_set := False\<rparr>"

text \<open>\<open>duration_cast\<close> to microseconds truncates towards zero.\<close>

definition duration_cast_us :: "int \<Rightarrow> int \<Rightarrow> int" where
  "duration_cast_us ticks_per_us d = sgn d * (\<bar>d\<bar> div ticks_per_us)"

definition latency_get_latency_us :: "int \<Rightarrow> time_point \<Rightarrow> buffer_latency_calc \<Rightarrow> int" where
  "latency_get_latency_us ticks_per_us now t =
     (if \<not> timestamp_is_set t then 0
      else duration_cast_us ticks_per_us (now - buffer_latency_calc.tp t))"

definition latency_get_timestamp :: "buffer_latency_calc \<Rightarrow> time_point" where
  "latency_get_timestamp t = buffer_latency_calc.tp t"

definition latency_set_timestamp :: "time_point \<Rightarrow> buffer_latency_calc \<Rightarrow> buffer_latency_calc" where
  "latency_set_timestamp tp' t = t\<lparr>buffer_latency_calc.tp := tp', timestamp_is_set := True\<rparr>"

subsection \<open>Bit buffer\<close>

record bit_buffer_t =
  N_bits :: uint32_t
  buffer :: "byte list"
  msg :: int

text \<open>
  Objects that are assigned to one another live in a store from addresses to objects:
  the assignment operators compare the addresses of their two operands.
\<close>

type_synonym addr = nat

definition bit_buffer_t_assign ::
  "nat \<Rightarrow> (addr \<rightharpoonup> bit_buffer_t) \<Rightarrow> addr \<Rightarrow> addr \<Rightarrow> fault + (addr \<rightharpoonup> bit_buffer_t)" where
  "bit_buffer_t_assign hdr h this buf =
     (if buf = this then Inr h
      else (case (h this, h buf) of
              (Some t, Some s) \<Rightarrow>
                (case memcpy (bit_buffer_t.buffer t) (int hdr)
                        (bit_buffer_t.buffer s) (bit_buffer_t.msg s) (unat (N_bits s)) of
                   Inl e \<Rightarrow> Inl e
                 | Inr a \<Rightarrow>
                     Inr (h(this \<mapsto> t\<lparr>N_bits := N_bits s, bit_buffer_t.buffer := a,
                                       bit_buffer_t.msg := int hdr\<rparr>)))
            | _ \<Rightarrow> Inl Undefined_behaviour))"

subsection \<open>Byte buffer\<close>

record buffer_metadata_t =
  pdcp_sn :: uint32_t
  tp :: buffer_latency_calc

definition buffer_metadata_t_init :: buffer_metadata_t where
  "buffer_metadata_t_init = \<lparr>pdcp_sn = 0, tp = buffer_latency_calc_init\<rparr>"

record byte_buffer_t =
  N_bytes :: uint32_t
  buffer :: "byte list"
  msg :: int
  md :: buffer_metadata_t

text \<open>
  The constructors do not initialise the array: \<open>mem\<close> is whatever the storage of the new
  object holds, and its length is \<open>SRSLTE_MAX_BUFFER_SIZE_BYTES\<close>.
\<close>

definition byte_buffer_t_default :: "nat \<Rightarrow> byte list \<Rightarrow> byte_buffer_t" where
  "byte_buffer_t_default hdr mem =
     \<lparr>N_bytes = 0, buffer = mem, msg = int hdr, md = buffer_metadata_t_init\<rparr>"

definition byte_buffer_t_size :: "nat \<Rightarrow> byte list \<Rightarrow> uint32_t \<Rightarrow> byte_buffer_t" where
  "byte_buffer_t_size hdr mem sz =
     \<lparr>N_bytes = sz, buffer = mem, msg = int hdr, md = buffer_metadata_t_init\<rparr>"

text \<open>\<open>byte_buffer_t(size, val)\<close>: the constructor above, then \<open>std::fill\<close>.\<close>

definition byte_buffer_t_fill :: "nat \<Rightarrow> byte list \<Rightarrow> uint32_t \<Rightarrow> byte \<Rightarrow> fault + byte_buffer_t" where
  "byte_buffer_t_fill hdr mem sz val =
     (let b = byte_buffer_t_size hdr mem sz in
      case store (buffer b) (msg b) (replicate (unat (N_bytes b)) val) of
        Inl e \<Rightarrow> Inl e
      | Inr a \<Rightarrow> Inr (b\<lparr>buffer := a\<rparr>))"

definition byte_buffer_t_copy :: "nat \<Rightarrow> byte list \<Rightarrow> byte_buffer_t \<Rightarrow> fault + byte_buffer_t" where
  "byte_buffer_t_copy hdr mem buf =
     (case memcpy mem (int hdr) (buffer buf) (msg buf) (unat (N_bytes buf)) of
        Inl e \<Rightarrow> Inl e
      | Inr a \<Rightarrow> Inr \<lparr>N_bytes = N_bytes buf, buffer = a, msg = int hdr, md = md buf\<rparr>)"

definition byte_buffer_t_assign ::
  "nat \<Rightarrow> (addr \<rightharpoonup> byte_buffer_t) \<Rightarrow> addr \<Rightarrow> addr \<Rightarrow> fault + (addr \<rightharpoonup> byte_buffer_t)" where
  "byte_buffer_t_assign hdr h this buf =
     (if buf = this then Inr h
      else (case (h this, h buf) of
              (Some t, Some s) \<Rightarrow>
                (case memcpy (buffer t) (int hdr) (buffer s) (msg s) (unat (N_bytes s)) of
                   Inl e \<Rightarrow> Inl e
                 | Inr a \<Rightarrow>
                     Inr (h(this \<mapsto> t\<lparr>N_bytes := N_bytes s, buffer := a,
                                       msg := int hdr, md := md s\<rparr>)))
            | _ \<Rightarrow> Inl Undefined_behaviour))"

definition clear :: "nat \<Rightarrow> byte_buffer_t \<Rightarrow> byte_buffer_t" where
  "clear hdr b = b\<lparr>msg := int hdr, N_bytes := 0, md := buffer_metadata_t_init\<rparr>"

text \<open>\<open>msg - buffer\<close> is a \<open>ptrdiff_t\<close>, returned as \<open>uint32_t\<close>.\<close>

definition get_headroom :: "byte_buffer_t \<Rightarrow> uint32_t" where
  "get_headroom b = word_of_int (msg b)"

text \<open>
  \<open>sizeof(buffer) - (msg - buffer) - N_bytes\<close> is computed in \<open>size_t\<close> and returned as
  \<open>uint32_t\<close>.
\<close>

definition get_tailroom :: "byte_buffer_t \<Rightarrow> uint32_t" where
  "get_tailroom b =
     ucast ((word_of_nat (length (buffer b)) :: size_t) - word_of_int (msg b) - ucast (N_bytes b))"

definition get_latency_us :: "int \<Rightarrow> time_point \<Rightarrow> byte_buffer_t \<Rightarrow> int" where
  "get_latency_us ticks_per_us now b = latency_get_latency_us ticks_per_us now (tp (md b))"

definition get_timestamp :: "byte_buffer_t \<Rightarrow> time_point" where
  "get_timestamp b = latency_get_timestamp (tp (md b))"

definition set_timestamp :: "time_point \<Rightarrow> byte_buffer_t \<Rightarrow> byte_buffer_t" where
  "set_timestamp tp' b = b\<lparr>md := (md b)\<lparr>tp := latency_set_timestamp tp' (tp (md b))\<rparr>\<rparr>"

text \<open>
  \<open>append_bytes(buf, size)\<close>: \<open>buf\<close> is the caller's array, read from its start.
  \<open>&msg[N_bytes]\<close> is \<open>N_bytes\<close> bytes after \<open>msg\<close>, and \<open>N_bytes += size\<close> wraps.
\<close>

definition append_bytes :: "byte_buffer_t \<Rightarrow> byte list \<Rightarrow> uint32_t \<Rightarrow> fault + byte_buffer_t" where
  "append_bytes b buf sz =
     (case memcpy (buffer b) (msg b + uint (N_bytes b)) buf 0 (unat sz) of
        Inl e \<Rightarrow> Inl e
      | Inr a \<Rightarrow> Inr (b\<lparr>buffer := a, N_bytes := N_bytes b + sz\<rparr>))"

text \<open>\<open>size()\<close>, and the view \<open>make_span\<close>: the pointer \<open>msg\<close> and the length \<open>N_bytes\<close>.\<close>

definition size_bytes :: "byte_buffer_t \<Rightarrow> uint32_t" where
  "size_bytes b = N_bytes b"

definition make_span :: "byte_buffer_t \<Rightarrow> int \<times> uint32_t" where
  "make_span b = (msg b, N_bytes b)"

text \<open>The bytes that the view covers: what a reader of \<open>make_span b\<close> gets.\<close>

definition span_bytes :: "byte_buffer_t \<Rightarrow> fault + byte list" where
  "span_bytes b = (case make_span b of (p, n) \<Rightarrow> load (buffer b) p (unat n))"

subsection \<open>The invariant of the data model\<close>

text \<open>\<open>0 \<le> headroom_offset\<close> and \<open>headroom_offset + length \<le> capacity\<close>.\<close>

definition buffer_inv :: "byte_buffer_t \<Rightarrow> bool" where
  "buffer_inv b \<longleftrightarrow> 0 \<le> msg b \<and> msg b + uint (N_bytes b) \<le> int (length (buffer b))"

subsection \<open>The append of the specification\<close>

text \<open>
  This definition follows the words of the specification, not the header: append checks
  the tailroom first, and a count that does not fit is a fatal bounds error that leaves
  the buffer as it was. It is here to be compared with \<open>append_bytes\<close>.
\<close>

definition append_checked :: "byte_buffer_t \<Rightarrow> byte list \<Rightarrow> uint32_t \<Rightarrow> fault + byte_buffer_t" where
  "append_checked b buf sz =
     (if msg b + uint (N_bytes b) + uint sz \<le> int (length (buffer b))
      then append_bytes b buf sz
      else Inl Fatal_bounds_error)"

section \<open>Memory lemmas\<close>

lemma load_closed:
  "load a off n =
     (if n = 0 then Inr []
      else if 0 \<le> off \<and> off + int n \<le> int (length a)
      then Inr (take n (drop (nat off) a))
      else Inl Undefined_behaviour)"
proof (induction n arbitrary: off)
  case 0
  show ?case by simp
next
  case (Suc n)
  show ?case
  proof (cases "0 \<le> off \<and> off < int (length a)")
    case False
    then show ?thesis by auto
  next
    case True
    then have n: "nat off < length a" by linarith
    have d: "drop (nat off) a = a ! nat off # drop (nat (off + 1)) a"
      using n True by (simp add: Cons_nth_drop_Suc nat_add_distrib)
    show ?thesis
    proof (cases "n = 0")
      case True
      with \<open>0 \<le> off \<and> off < int (length a)\<close> d show ?thesis by simp
    next
      case False
      with True d Suc.IH [of "off + 1"] show ?thesis by auto
    qed
  qed
qed

lemma store_closed:
  "store a off xs =
     (if xs = [] then Inr a
      else if 0 \<le> off \<and> off + int (length xs) \<le> int (length a)
      then Inr (take (nat off) a @ xs @ drop (nat off + length xs) a)
      else Inl Undefined_behaviour)"
proof (induction xs arbitrary: a off)
  case Nil
  show ?case by simp
next
  case (Cons x xs)
  show ?case
  proof (cases "0 \<le> off \<and> off < int (length a)")
    case False
    then show ?thesis by auto
  next
    case True
    then have n: "nat off < length a" by linarith
    have u: "take (nat off) a @ x # drop (Suc (nat off)) a = a[nat off := x]"
      using n by (simp add: upd_conv_take_nth_drop)
    have t: "take (nat (off + 1)) (a[nat off := x]) = take (nat off) a @ [x]"
      using n True by (simp add: nat_add_distrib take_Suc_conv_app_nth)
    have dr: "drop (nat (off + 1) + length xs) (a[nat off := x]) = drop (nat off + length (x # xs)) a"
      using True by (simp add: nat_add_distrib)
    show ?thesis
    proof (cases "xs = []")
      case True
      with \<open>0 \<le> off \<and> off < int (length a)\<close> u show ?thesis by simp
    next
      case False
      with True t dr Cons.IH [of "a[nat off := x]" "off + 1"] show ?thesis by auto
    qed
  qed
qed

section \<open>Arithmetic of headroom and tailroom\<close>

lemma ucast_of_int_64_32: "(ucast (word_of_int k :: 64 word) :: 32 word) = word_of_int k"
  by (rule bit_word_eqI) (simp add: bit_ucast_iff bit_word_of_int_iff)

text \<open>The 64-bit intermediate value of \<open>get_tailroom\<close> does not show in its result.\<close>

lemma tailroom_int:
  "get_tailroom b = word_of_int (int (length (buffer b)) - msg b - uint (N_bytes b))"
proof -
  have u: "(ucast (N_bytes b) :: 64 word) = word_of_int (uint (N_bytes b))"
    by (rule ucast_eq)
  have "(word_of_nat (length (buffer b)) :: 64 word) - word_of_int (msg b) - ucast (N_bytes b)
        = word_of_int (int (length (buffer b)) - msg b - uint (N_bytes b))"
    unfolding u by simp
  then show ?thesis
    by (simp only: get_tailroom_def ucast_of_int_64_32)
qed

lemma uint_word_of_int_32:
  "0 \<le> k \<Longrightarrow> k < 4294967296 \<Longrightarrow> uint (word_of_int k :: 32 word) = k"
  by (simp add: uint_word_of_int take_bit_int_eq_self take_bit_eq_mod)

lemma headroom_exact:
  assumes "buffer_inv b" and "length (buffer b) < 2 ^ 32"
  shows "uint (get_headroom b) = msg b"
proof -
  have n: "0 \<le> uint (N_bytes b)" by (rule uint_ge_0)
  have c: "int (length (buffer b)) < 4294967296" using assms(2) by simp
  have i: "0 \<le> msg b" "msg b + uint (N_bytes b) \<le> int (length (buffer b))"
    using assms(1) by (simp_all add: buffer_inv_def)
  from n c i have "0 \<le> msg b" "msg b < 4294967296"
    by linarith+
  then show ?thesis
    unfolding get_headroom_def by (rule uint_word_of_int_32)
qed

lemma tailroom_exact:
  assumes "buffer_inv b" and "length (buffer b) < 2 ^ 32"
  shows "uint (get_tailroom b) = int (length (buffer b)) - msg b - uint (N_bytes b)"
proof -
  have n: "0 \<le> uint (N_bytes b)" by (rule uint_ge_0)
  have c: "int (length (buffer b)) < 4294967296" using assms(2) by simp
  have i: "0 \<le> msg b" "msg b + uint (N_bytes b) \<le> int (length (buffer b))"
    using assms(1) by (simp_all add: buffer_inv_def)
  from n c i have "0 \<le> int (length (buffer b)) - msg b - uint (N_bytes b)"
    "int (length (buffer b)) - msg b - uint (N_bytes b) < 4294967296"
    by linarith+
  then show ?thesis
    unfolding tailroom_int by (rule uint_word_of_int_32)
qed

section \<open>Copies that stay inside the arrays\<close>

lemma memcpy_closed:
  assumes "n \<noteq> 0 \<longrightarrow> 0 \<le> soff \<and> soff + int n \<le> int (length src)"
    and "n \<noteq> 0 \<longrightarrow> 0 \<le> doff \<and> doff + int n \<le> int (length dst)"
  shows "memcpy dst doff src soff n =
     Inr (take (nat doff) dst @ take n (drop (nat soff) src) @ drop (nat doff + n) dst)"
proof (cases "n = 0")
  case True
  then show ?thesis by (simp add: memcpy_def)
next
  case False
  with assms have s: "0 \<le> soff" "soff + int n \<le> int (length src)"
    and d: "0 \<le> doff" "doff + int n \<le> int (length dst)" by simp_all
  from s have l: "length (take n (drop (nat soff) src)) = n" by simp
  from False have ne: "take n (drop (nat soff) src) \<noteq> []"
    using l by auto
  show ?thesis
    using False s d ne by (simp add: memcpy_def load_closed store_closed l)
qed

lemma load_length: "load a off n = Inr bs \<Longrightarrow> length bs = n"
  by (induction n arbitrary: off bs) (auto split: if_splits sum.splits)

lemma load_fault: "load a off n = Inl e \<Longrightarrow> e = Undefined_behaviour"
  by (induction n arbitrary: off) (auto split: if_splits sum.splits)

lemma memcpy_overrun:
  assumes "n \<noteq> 0" and "\<not> (0 \<le> doff \<and> doff + int n \<le> int (length dst))"
  shows "memcpy dst doff src soff n = Inl Undefined_behaviour"
proof (cases "load src soff n")
  case (Inl e)
  then show ?thesis by (simp add: memcpy_def load_fault)
next
  case (Inr bs)
  then have l: "length bs = n" by (rule load_length)
  with assms(1) have ne: "bs \<noteq> []" by auto
  have "store dst doff bs = Inl Undefined_behaviour"
    using assms(2) ne l by (simp only: store_closed if_False)
  with Inr show ?thesis by (simp add: memcpy_def)
qed

lemma span_bytes_closed:
  assumes "buffer_inv b"
  shows "span_bytes b = Inr (take (unat (N_bytes b)) (drop (nat (msg b)) (buffer b)))"
  using assms by (simp add: span_bytes_def make_span_def load_closed buffer_inv_def)

section \<open>Append when the bytes fit, and when they do not\<close>

lemma unat_le_iff_uint: "unat (w :: 32 word) \<le> n \<longleftrightarrow> uint w \<le> int n"
  by (simp only: unat_eq_nat_uint nat_le_iff)

lemma unat_nonzero: "0 < uint (w :: 32 word) \<Longrightarrow> unat w \<noteq> 0"
  by (auto simp: unat_eq_zero)

text \<open>What append does when the bytes fit.\<close>

lemma append_bytes_closed:
  assumes inv: "buffer_inv b" and cap: "length (buffer b) < 2 ^ 32"
    and src: "unat sz \<le> length buf"
    and fits: "uint sz \<le> uint (get_tailroom b)"
  shows "append_bytes b buf sz =
     Inr (b\<lparr>buffer := take (nat (msg b) + unat (N_bytes b)) (buffer b) @ take (unat sz) buf
                 @ drop (nat (msg b) + unat (N_bytes b) + unat sz) (buffer b),
            N_bytes := N_bytes b + sz\<rparr>)"
proof -
  have i: "0 \<le> msg b" "msg b + uint (N_bytes b) \<le> int (length (buffer b))"
    using inv by (simp_all add: buffer_inv_def)
  have t: "msg b + uint (N_bytes b) + uint sz \<le> int (length (buffer b))"
    using fits tailroom_exact [OF inv cap] by linarith
  have p: "nat (msg b + uint (N_bytes b)) = nat (msg b) + unat (N_bytes b)"
    using i(1) by (simp add: nat_add_distrib)
  have "memcpy (buffer b) (msg b + uint (N_bytes b)) buf 0 (unat sz) =
     Inr (take (nat (msg b + uint (N_bytes b))) (buffer b) @ take (unat sz) (drop (nat 0) buf)
          @ drop (nat (msg b + uint (N_bytes b)) + unat sz) (buffer b))"
  proof (rule memcpy_closed)
    show "unat sz \<noteq> 0 \<longrightarrow> 0 \<le> (0::int) \<and> 0 + int (unat sz) \<le> int (length buf)"
      using src by (simp add: unat_le_iff_uint)
    show "unat sz \<noteq> 0 \<longrightarrow> 0 \<le> msg b + uint (N_bytes b) \<and>
        msg b + uint (N_bytes b) + int (unat sz) \<le> int (length (buffer b))"
      using i t by simp
  qed
  then show ?thesis
    by (simp add: append_bytes_def p)
qed

lemma append_bytes_overrun:
  assumes inv: "buffer_inv b" and cap: "length (buffer b) < 2 ^ 32"
    and over: "uint (get_tailroom b) < uint sz"
  shows "append_bytes b buf sz = Inl Undefined_behaviour"
proof -
  have t: "int (length (buffer b)) < msg b + uint (N_bytes b) + uint sz"
    using over tailroom_exact [OF inv cap] by linarith
  have "0 \<le> uint (get_tailroom b)" by (rule uint_ge_0)
  with over have "0 < uint sz" by linarith
  then have "unat sz \<noteq> 0" by (rule unat_nonzero)
  moreover have "\<not> (0 \<le> msg b + uint (N_bytes b) \<and>
      msg b + uint (N_bytes b) + int (unat sz) \<le> int (length (buffer b)))"
    using t by simp
  ultimately have "memcpy (buffer b) (msg b + uint (N_bytes b)) buf 0 (unat sz)
      = Inl Undefined_behaviour"
    by (rule memcpy_overrun)
  then show ?thesis by (simp add: append_bytes_def)
qed

lemma splice_span:
  assumes "m + k + n \<le> length a" and "length xs = n"
  shows "take (k + n) (drop m (take (m + k) a @ xs @ drop (m + k + n) a)) = take k (drop m a) @ xs"
proof -
  have "drop m (take (m + k) a @ xs @ drop (m + k + n) a)
      = take k (drop m a) @ xs @ drop (m + k + n) a"
    using assms(1) by (simp add: drop_take)
  moreover have "length (take k (drop m a)) = k"
    using assms(1) by simp
  ultimately show ?thesis using assms(2) by simp
qed

lemma unat_of_nat_32: "int n \<le> uint (w :: 32 word) \<Longrightarrow> unat (word_of_nat n :: 32 word) = n"
proof -
  assume "int n \<le> uint w"
  then have "n \<le> unat w" by (simp only: unat_eq_nat_uint le_nat_iff uint_ge_0)
  then show ?thesis by (rule le_unat_uoi)
qed

lemma uint_of_unat: "unat (w :: 32 word) = n \<Longrightarrow> uint w = int n"
  by (simp only: uint_nat)

section \<open>What a copy that returns has done\<close>

lemma store_length: "store a off xs = Inr a' \<Longrightarrow> length a' = length a"
  by (induction xs arbitrary: a off) (auto split: if_splits)

lemma memcpy_returns:
  assumes "memcpy dst doff src soff n = Inr a"
  shows "length a = length dst"
    and "n \<noteq> 0 \<Longrightarrow> 0 \<le> doff \<and> doff + int n \<le> int (length dst)"
proof -
  from assms obtain bs where "load src soff n = Inr bs" "store dst doff bs = Inr a"
    by (auto simp: memcpy_def split: sum.splits)
  then show "length a = length dst" by (simp add: store_length)
  show "0 \<le> doff \<and> doff + int n \<le> int (length dst)" if "n \<noteq> 0"
  proof (rule ccontr)
    assume "\<not> (0 \<le> doff \<and> doff + int n \<le> int (length dst))"
    with that have "memcpy dst doff src soff n = Inl Undefined_behaviour"
      by (rule memcpy_overrun)
    with assms show False by simp
  qed
qed

lemma copy_into:
  assumes inv: "buffer_inv src" and fits: "int hdr + uint (N_bytes src) \<le> int (length dst)"
  shows "\<exists>a. memcpy dst (int hdr) (buffer src) (msg src) (unat (N_bytes src)) = Inr a \<and>
      length a = length dst \<and>
      load a (int hdr) (unat (N_bytes src))
        = Inr (take (unat (N_bytes src)) (drop (nat (msg src)) (buffer src)))"
proof -
  define n where "n = unat (N_bytes src)"
  define m where "m = nat (msg src)"
  define bs where "bs = take n (drop m (buffer src))"
  define a where "a = take hdr dst @ bs @ drop (hdr + n) dst"
  have i: "0 \<le> msg src" "msg src + uint (N_bytes src) \<le> int (length (buffer src))"
    using inv by (simp_all add: buffer_inv_def)
  have un: "uint (N_bytes src) = int n" by (simp add: n_def)
  have mm: "msg src = int m" using i(1) by (simp add: m_def)
  have rs: "m + n \<le> length (buffer src)" using i(2) unfolding un mm by linarith
  have rd: "hdr + n \<le> length dst" using fits unfolding un by linarith
  have lb: "length bs = n" using rs by (simp add: bs_def)
  have "memcpy dst (int hdr) (buffer src) (msg src) n =
      Inr (take (nat (int hdr)) dst @ take n (drop (nat (msg src)) (buffer src))
           @ drop (nat (int hdr) + n) dst)"
  proof (rule memcpy_closed)
    show "n \<noteq> 0 \<longrightarrow> 0 \<le> msg src \<and> msg src + int n \<le> int (length (buffer src))"
      using i by (simp add: un)
    show "n \<noteq> 0 \<longrightarrow> 0 \<le> int hdr \<and> int hdr + int n \<le> int (length dst)"
      using rd by simp
  qed
  then have c: "memcpy dst (int hdr) (buffer src) (msg src) n = Inr a"
    by (simp add: a_def bs_def m_def)
  have la: "length a = length dst"
    using rd lb by (simp add: a_def)
  have "take n (drop hdr a) = bs"
    using rd lb by (simp add: a_def)
  then have "load a (int hdr) n = Inr bs"
    using rd la lb by (cases "n = 0") (simp_all add: load_closed)
  with c la show ?thesis
    unfolding n_def [symmetric] m_def [symmetric] bs_def by blast
qed

section \<open>The claims\<close>

subsection \<open>C5: headroom, length and tailroom add up to the capacity\<close>

text \<open>
  C5. In every state of a byte buffer, whatever \<open>msg\<close> and \<open>N_bytes\<close> hold,
  \<open>get_headroom() + N_bytes + get_tailroom()\<close> is \<open>sizeof(buffer)\<close>: the three terms
  are \<open>uint32_t\<close> and the sum is taken as the code takes it, in 32 bits, so that it
  compares equal to the capacity whenever the capacity is below \<open>2 ^ 32\<close>. When moreover
  the valid region lies inside the array, no term wraps and the three numbers add up to
  the capacity without any reduction.
\<close>

theorem headroom_length_tailroom:
  "get_headroom b + N_bytes b + get_tailroom b = word_of_nat (length (buffer b)) \<and>
   (length (buffer b) < 2 ^ 32 \<longrightarrow>
      uint (get_headroom b + N_bytes b + get_tailroom b) = int (length (buffer b))) \<and>
   (buffer_inv b \<and> length (buffer b) < 2 ^ 32 \<longrightarrow>
      uint (get_headroom b) + uint (N_bytes b) + uint (get_tailroom b)
        = int (length (buffer b)))"
proof -
  have s: "get_headroom b + N_bytes b + get_tailroom b = word_of_nat (length (buffer b))"
    by (simp add: tailroom_int get_headroom_def)
  have "uint (get_headroom b + N_bytes b + get_tailroom b) = int (length (buffer b))"
    if "length (buffer b) < 2 ^ 32"
  proof -
    have "uint (word_of_int (int (length (buffer b))) :: uint32_t) = int (length (buffer b))"
      using that by (intro uint_word_of_int_32) simp_all
    then show ?thesis by (simp add: s)
  qed
  moreover have "uint (get_headroom b) + uint (N_bytes b) + uint (get_tailroom b)
      = int (length (buffer b))"
    if "buffer_inv b" and "length (buffer b) < 2 ^ 32"
    using that by (simp add: headroom_exact tailroom_exact)
  ultimately show ?thesis using s by blast
qed

theorem headroom_length_tailroom_witness:
  "buffer_inv (byte_buffer_t_size 64 (replicate 1500 0) 100) \<and>
   length (buffer (byte_buffer_t_size 64 (replicate 1500 0) 100)) < 2 ^ 32 \<and>
   get_headroom (byte_buffer_t_size 64 (replicate 1500 0) 100)
     + N_bytes (byte_buffer_t_size 64 (replicate 1500 0) 100)
     + get_tailroom (byte_buffer_t_size 64 (replicate 1500 0) 100) = 1500 \<and>
   uint (get_headroom (byte_buffer_t_size 64 (replicate 1500 0) 100))
     + uint (N_bytes (byte_buffer_t_size 64 (replicate 1500 0) 100))
     + uint (get_tailroom (byte_buffer_t_size 64 (replicate 1500 0) 100)) = 1500 \<and>
   length (buffer (byte_buffer_t_size 64 (replicate 1500 0) 1500)) < 2 ^ 32 \<and>
   uint (get_headroom (byte_buffer_t_size 64 (replicate 1500 0) 1500)
     + N_bytes (byte_buffer_t_size 64 (replicate 1500 0) 1500)
     + get_tailroom (byte_buffer_t_size 64 (replicate 1500 0) 1500)) = 1500"
  using headroom_length_tailroom [of "byte_buffer_t_size 64 (replicate 1500 0) 100"]
    headroom_length_tailroom [of "byte_buffer_t_size 64 (replicate 1500 0) 1500"]
  by (simp add: buffer_inv_def byte_buffer_t_size_def)

subsection \<open>C8: clear\<close>

text \<open>
  C8. In any state, \<open>clear()\<close> puts \<open>msg\<close> back at the header offset, sets \<open>N_bytes\<close> to
  0 and the metadata to its default (sequence number 0, no timestamp captured), and
  leaves every byte of the array as it was.
\<close>

theorem clear_resets:
  "msg (clear hdr b) = int hdr \<and>
   get_headroom (clear hdr b) = word_of_nat hdr \<and>
   N_bytes (clear hdr b) = 0 \<and>
   md (clear hdr b) = buffer_metadata_t_init \<and>
   md (clear hdr b) = md (byte_buffer_t_default hdr mem) \<and>
   pdcp_sn (md (clear hdr b)) = 0 \<and>
   \<not> timestamp_is_set (tp (md (clear hdr b))) \<and>
   buffer (clear hdr b) = buffer b"
  by (simp add: clear_def get_headroom_def buffer_metadata_t_init_def
      buffer_latency_calc_init_def byte_buffer_t_default_def)

subsection \<open>C9: latency before a capture\<close>

text \<open>
  C9. \<open>get_latency_us()\<close> is 0 microseconds on a tracker that has captured nothing:
  a new tracker, a tracker after \<open>clear()\<close>, the tracker of a newly constructed byte
  buffer, and the tracker of a byte buffer after \<open>clear()\<close>, whatever the clock reads.
  The query has no failing path: it is a total function.
\<close>

theorem latency_zero_before_capture:
  "latency_get_latency_us k now buffer_latency_calc_init = 0 \<and>
   latency_get_latency_us k now (latency_clear t) = 0 \<and>
   get_latency_us k now (byte_buffer_t_default hdr mem) = 0 \<and>
   get_latency_us k now (byte_buffer_t_size hdr mem sz) = 0 \<and>
   get_latency_us k now (clear hdr b) = 0"
  by (simp add: latency_get_latency_us_def buffer_latency_calc_init_def latency_clear_def
      get_latency_us_def byte_buffer_t_default_def byte_buffer_t_size_def clear_def
      buffer_metadata_t_init_def)

subsection \<open>C10: self-assignment\<close>

text \<open>
  C10. Assigning a byte buffer or a bit buffer to itself changes nothing: the store of
  objects after \<open>x = x\<close> is the store before, so the object at that address keeps its
  length, its \<open>msg\<close>, its bytes and, for the byte buffer, its metadata.
\<close>

theorem self_assign_noop:
  "byte_buffer_t_assign hdr h a a = Inr h \<and> bit_buffer_t_assign hdr g a a = Inr g"
  by (simp add: byte_buffer_t_assign_def bit_buffer_t_assign_def)

subsection \<open>C1: append beyond the tailroom\<close>

text \<open>
  C1, as stated, does not hold: \<open>append_bytes\<close> has no tailroom check and no failing
  path. On a full buffer (header offset 64, array of 1500 bytes, 1436 bytes in use, so
  tailroom 0) appending one byte copies past the end of the array, which is undefined
  behaviour, where the append of the specification reports a bounds error and keeps the
  buffer.
\<close>

theorem append_overrun_counterexample:
  "uint (get_tailroom (byte_buffer_t_size 64 (replicate 1500 0) 1436)) < uint (1 :: uint32_t) \<and>
   append_bytes (byte_buffer_t_size 64 (replicate 1500 0) 1436) [171] 1 = Inl Undefined_behaviour \<and>
   append_checked (byte_buffer_t_size 64 (replicate 1500 0) 1436) [171] 1 = Inl Fatal_bounds_error \<and>
   append_bytes (byte_buffer_t_size 64 (replicate 1500 0) 1436) [171] 1
     \<noteq> append_checked (byte_buffer_t_size 64 (replicate 1500 0) 1436) [171] 1"
  by (simp add: tailroom_int append_bytes_def append_checked_def memcpy_def load_closed
      store_closed byte_buffer_t_size_def)

text \<open>
  C1, amended. For a buffer whose valid region lies inside its array and a byte sequence
  of \<open>sz\<close> readable bytes: when \<open>sz\<close> is at most the tailroom, append copies exactly
  these bytes right after the valid region, adds \<open>sz\<close> to the length without wrapping,
  keeps \<open>msg\<close>, the metadata, the array size and every byte outside the copied window,
  and agrees with the append of the specification; it neither truncates nor grows. When
  \<open>sz\<close> exceeds the tailroom there is no bounds error: the copy leaves the array and
  the behaviour is undefined.
\<close>

theorem append_bytes_unchecked:
  assumes inv: "buffer_inv b" and cap: "length (buffer b) < 2 ^ 32"
    and src: "unat sz \<le> length buf"
  shows "(uint sz \<le> uint (get_tailroom b) \<longrightarrow>
           (\<exists>b' bs. append_bytes b buf sz = Inr b' \<and> append_checked b buf sz = Inr b' \<and>
              uint (N_bytes b') = uint (N_bytes b) + uint sz \<and>
              msg b' = msg b \<and> md b' = md b \<and>
              length (buffer b') = length (buffer b) \<and>
              span_bytes b = Inr bs \<and> span_bytes b' = Inr (bs @ take (unat sz) buf) \<and>
              take (nat (msg b) + unat (N_bytes b)) (buffer b')
                = take (nat (msg b) + unat (N_bytes b)) (buffer b) \<and>
              drop (nat (msg b) + unat (N_bytes b) + unat sz) (buffer b')
                = drop (nat (msg b) + unat (N_bytes b) + unat sz) (buffer b) \<and>
              buffer_inv b')) \<and>
         (uint (get_tailroom b) < uint sz \<longrightarrow>
            append_bytes b buf sz = Inl Undefined_behaviour \<and>
            append_checked b buf sz = Inl Fatal_bounds_error)"
proof (intro conjI impI)
  assume over: "uint (get_tailroom b) < uint sz"
  show "append_bytes b buf sz = Inl Undefined_behaviour"
    using inv cap over by (rule append_bytes_overrun)
  have "int (length (buffer b)) < msg b + uint (N_bytes b) + uint sz"
    using over tailroom_exact [OF inv cap] by linarith
  then show "append_checked b buf sz = Inl Fatal_bounds_error"
    by (simp add: append_checked_def)
next
  assume fits: "uint sz \<le> uint (get_tailroom b)"
  define m where "m = nat (msg b)"
  define k where "k = unat (N_bytes b)"
  define n where "n = unat sz"
  define a where "a = buffer b"
  define xs where "xs = take n buf"
  define b' where "b' = b\<lparr>buffer := take (m + k) a @ xs @ drop (m + k + n) a,
                           N_bytes := N_bytes b + sz\<rparr>"
  have i: "0 \<le> msg b" "msg b + uint (N_bytes b) \<le> int (length (buffer b))"
    using inv by (simp_all add: buffer_inv_def)
  have t: "msg b + uint (N_bytes b) + uint sz \<le> int (length (buffer b))"
    using fits tailroom_exact [OF inv cap] by linarith
  have mk: "msg b = int m" "uint (N_bytes b) = int k" "uint sz = int n"
    using i(1) by (simp_all add: m_def k_def n_def)
  have room: "m + k + n \<le> length a"
    using t unfolding mk a_def by linarith
  have lxs: "length xs = n"
    using src by (simp add: xs_def n_def)
  have c: "int (length (buffer b)) < 4294967296" using cap by simp
  have nowrap: "uint (N_bytes b + sz) = uint (N_bytes b) + uint sz"
  proof -
    have "uint (N_bytes b) + uint sz < 2 ^ LENGTH(32)"
      using t i(1) c by simp
    then show ?thesis by (simp only: uint_add_lem)
  qed
  have ap: "append_bytes b buf sz = Inr b'"
    using append_bytes_closed [OF inv cap src fits]
    by (simp add: b'_def m_def k_def n_def a_def xs_def)
  have ck: "append_checked b buf sz = Inr b'"
    using t ap by (simp add: append_checked_def)
  have nb: "uint (N_bytes b') = uint (N_bytes b) + uint sz"
    using nowrap by (simp add: b'_def)
  have len: "length (buffer b') = length (buffer b)"
    using room lxs by (simp add: b'_def a_def)
  have inv': "buffer_inv b'"
    using i(1) t by (simp add: buffer_inv_def len nb) (simp add: b'_def)
  have s: "span_bytes b = Inr (take k (drop m a))"
    using span_bytes_closed [OF inv] by (simp add: k_def m_def a_def)
  have kn: "unat (N_bytes b') = k + n"
    using nb unfolding mk by (simp add: unat_eq_nat_uint)
  have mb': "msg b' = msg b" by (simp add: b'_def)
  have "span_bytes b' = Inr (take (k + n) (drop m (buffer b')))"
    using span_bytes_closed [OF inv'] by (simp add: kn mb' m_def)
  also have "buffer b' = take (m + k) a @ xs @ drop (m + k + n) a"
    by (simp add: b'_def)
  also have "take (k + n) (drop m (take (m + k) a @ xs @ drop (m + k + n) a))
      = take k (drop m a) @ xs"
    using room lxs by (rule splice_span)
  finally have s': "span_bytes b' = Inr (take k (drop m a) @ take (unat sz) buf)"
    by (simp add: xs_def n_def)
  have bef: "take (m + k) (buffer b') = take (m + k) (buffer b)"
    using room by (simp add: b'_def a_def)
  have aft: "drop (m + k + n) (buffer b') = drop (m + k + n) (buffer b)"
    using room lxs by (simp add: b'_def a_def)
  show "\<exists>b' bs. append_bytes b buf sz = Inr b' \<and> append_checked b buf sz = Inr b' \<and>
              uint (N_bytes b') = uint (N_bytes b) + uint sz \<and>
              msg b' = msg b \<and> md b' = md b \<and>
              length (buffer b') = length (buffer b) \<and>
              span_bytes b = Inr bs \<and> span_bytes b' = Inr (bs @ take (unat sz) buf) \<and>
              take (nat (msg b) + unat (N_bytes b)) (buffer b')
                = take (nat (msg b) + unat (N_bytes b)) (buffer b) \<and>
              drop (nat (msg b) + unat (N_bytes b) + unat sz) (buffer b')
                = drop (nat (msg b) + unat (N_bytes b) + unat sz) (buffer b) \<and>
              buffer_inv b'"
  proof (intro exI conjI)
    show "append_bytes b buf sz = Inr b'" by (rule ap)
    show "append_checked b buf sz = Inr b'" by (rule ck)
    show "uint (N_bytes b') = uint (N_bytes b) + uint sz" by (rule nb)
    show "msg b' = msg b" by (rule mb')
    show "md b' = md b" by (simp add: b'_def)
    show "length (buffer b') = length (buffer b)" by (rule len)
    show "span_bytes b = Inr (take k (drop m a))" by (rule s)
    show "span_bytes b' = Inr (take k (drop m a) @ take (unat sz) buf)" by (rule s')
    show "take (nat (msg b) + unat (N_bytes b)) (buffer b')
                = take (nat (msg b) + unat (N_bytes b)) (buffer b)"
      using bef by (simp add: m_def k_def)
    show "drop (nat (msg b) + unat (N_bytes b) + unat sz) (buffer b')
                = drop (nat (msg b) + unat (N_bytes b) + unat sz) (buffer b)"
      using aft by (simp add: m_def k_def n_def)
    show "buffer_inv b'" by (rule inv')
  qed
qed

theorem append_bytes_unchecked_witness:
  "buffer_inv (byte_buffer_t_size 64 (replicate 1500 0) 100) \<and>
   length (buffer (byte_buffer_t_size 64 (replicate 1500 0) 100)) < 2 ^ 32 \<and>
   unat (3 :: uint32_t) \<le> length [1, 2, 3 :: byte] \<and>
   uint (3 :: uint32_t) \<le> uint (get_tailroom (byte_buffer_t_size 64 (replicate 1500 0) 100)) \<and>
   (\<exists>b'. append_bytes (byte_buffer_t_size 64 (replicate 1500 0) 100) [1, 2, 3] 3 = Inr b' \<and>
         uint (N_bytes b') = 103 \<and> msg b' = 64 \<and>
         span_bytes b' = Inr (replicate 100 0 @ [1, 2, 3])) \<and>
   buffer_inv (byte_buffer_t_size 64 (replicate 1500 0) 1436) \<and>
   uint (get_tailroom (byte_buffer_t_size 64 (replicate 1500 0) 1436)) < uint (1 :: uint32_t) \<and>
   append_bytes (byte_buffer_t_size 64 (replicate 1500 0) 1436) [171] 1 = Inl Undefined_behaviour"
proof -
  have s: "span_bytes \<lparr>N_bytes = 100, buffer = replicate 1500 0, msg = 64,
      md = buffer_metadata_t_init\<rparr> = Inr (replicate 100 0)"
    by (simp add: span_bytes_def make_span_def load_closed)
  show ?thesis
    using append_bytes_unchecked [of "byte_buffer_t_size 64 (replicate 1500 0) 100" 3 "[1, 2, 3]"]
      append_bytes_unchecked [of "byte_buffer_t_size 64 (replicate 1500 0) 1436" 1 "[171]"]
    by (simp add: buffer_inv_def tailroom_int byte_buffer_t_size_def s) blast
qed

subsection \<open>C7: two appends are one append of the concatenation\<close>

text \<open>
  C7. For a buffer whose valid region lies inside its array, and byte sequences \<open>x\<close>
  and \<open>y\<close> that together fit in the tailroom, \<open>append(x); append(y)\<close> and
  \<open>append(x @ y)\<close> both succeed and end in the same buffer: same length, same bytes,
  same everything else.
\<close>

theorem append_append:
  assumes inv: "buffer_inv b" and cap: "length (buffer b) < 2 ^ 32"
    and fits: "int (length x) + int (length y) \<le> uint (get_tailroom b)"
  shows "\<exists>b1 b2. append_bytes b x (word_of_nat (length x)) = Inr b1 \<and>
           append_bytes b1 y (word_of_nat (length y)) = Inr b2 \<and>
           append_bytes b (x @ y) (word_of_nat (length (x @ y))) = Inr b2"
proof -
  define m where "m = nat (msg b)"
  define k where "k = unat (N_bytes b)"
  define a where "a = buffer b"
  define sx :: uint32_t where "sx = word_of_nat (length x)"
  define sy :: uint32_t where "sy = word_of_nat (length y)"
  define b1 where "b1 = b\<lparr>buffer := take (m + k) a @ x @ drop (m + k + length x) a,
                           N_bytes := N_bytes b + sx\<rparr>"
  define b2 where "b2 = b\<lparr>buffer := take (m + k) a @ (x @ y) @ drop (m + k + length (x @ y)) a,
                           N_bytes := N_bytes b + (sx + sy)\<rparr>"
  have i: "0 \<le> msg b" "msg b + uint (N_bytes b) \<le> int (length (buffer b))"
    using inv by (simp_all add: buffer_inv_def)
  have te: "uint (get_tailroom b) = int (length (buffer b)) - msg b - uint (N_bytes b)"
    using inv cap by (rule tailroom_exact)
  have ux: "unat sx = length x" unfolding sx_def
    by (rule unat_of_nat_32 [of _ "get_tailroom b"]) (use fits in linarith)
  have uy: "unat sy = length y" unfolding sy_def
    by (rule unat_of_nat_32 [of _ "get_tailroom b"]) (use fits in linarith)
  have uxy: "unat (sx + sy) = length (x @ y)"
  proof -
    have "sx + sy = word_of_nat (length (x @ y))" by (simp add: sx_def sy_def)
    moreover have "unat (word_of_nat (length (x @ y)) :: uint32_t) = length (x @ y)"
      by (rule unat_of_nat_32 [of _ "get_tailroom b"]) (use fits in simp)
    ultimately show ?thesis by simp
  qed
  have mk: "msg b = int m" "uint (N_bytes b) = int k"
    using i(1) by (simp_all add: m_def k_def)
  have room: "m + k + length x + length y \<le> length a"
    using fits te unfolding mk a_def by linarith
  have c: "int (length (buffer b)) < 4294967296" using cap by simp
  have s1: "append_bytes b x sx = Inr b1"
  proof -
    have "uint sx \<le> uint (get_tailroom b)"
      using fits uint_of_unat [OF ux] by linarith
    from append_bytes_closed [OF inv cap _ this, of x] ux
    show ?thesis by (simp add: b1_def m_def k_def a_def)
  qed
  have n1: "uint (N_bytes b + sx) = int k + int (length x)"
  proof -
    have "uint (N_bytes b) + uint sx < 2 ^ LENGTH(32)"
      using room c uint_of_unat [OF ux] unfolding mk a_def by simp
    then have "uint (N_bytes b + sx) = uint (N_bytes b) + uint sx"
      by (simp only: uint_add_lem)
    then show ?thesis using uint_of_unat [OF ux] by (simp add: mk)
  qed
  have inv1: "buffer_inv b1"
    using room i(1) n1 by (simp add: buffer_inv_def b1_def a_def mk)
  have len1: "length (buffer b1) = length a"
    using room by (simp add: b1_def)
  have cap1: "length (buffer b1) < 2 ^ 32"
    using cap len1 by (simp add: a_def)
  have k1: "unat (N_bytes b1) = k + length x"
    using n1 by (simp add: b1_def unat_eq_nat_uint)
  have m1: "nat (msg b1) = m" by (simp add: b1_def m_def)
  have s2: "append_bytes b1 y sy = Inr b2"
  proof -
    have "uint (get_tailroom b1) = int (length (buffer b1)) - msg b1 - uint (N_bytes b1)"
      using inv1 cap1 by (rule tailroom_exact)
    also have "\<dots> = int (length a) - int m - (int k + int (length x))"
      using n1 by (simp add: len1) (simp add: b1_def mk)
    finally have "uint sy \<le> uint (get_tailroom b1)"
      using room uint_of_unat [OF uy] by linarith
    from append_bytes_closed [OF inv1 cap1 _ this, of y] uy
    have "append_bytes b1 y sy =
       Inr (b1\<lparr>buffer := take (m + (k + length x)) (buffer b1) @ y
                   @ drop (m + (k + length x) + length y) (buffer b1),
              N_bytes := N_bytes b1 + sy\<rparr>)"
      by (simp add: k1 m1)
    moreover have "take (m + (k + length x)) (buffer b1) = take (m + k) a @ x"
      using room by (simp add: b1_def)
    moreover have "drop (m + (k + length x) + length y) (buffer b1)
        = drop (m + k + length (x @ y)) a"
      using room by (simp add: b1_def ac_simps)
    ultimately show ?thesis
      by (simp add: b2_def) (simp add: b1_def add.assoc)
  qed
  have s3: "append_bytes b (x @ y) (word_of_nat (length (x @ y))) = Inr b2"
  proof -
    have e: "(word_of_nat (length (x @ y)) :: uint32_t) = sx + sy"
      by (simp add: sx_def sy_def)
    have "uint (sx + sy) \<le> uint (get_tailroom b)"
      using fits uint_of_unat [OF uxy] by simp
    from append_bytes_closed [OF inv cap _ this, of "x @ y"] uxy
    show ?thesis unfolding e by (simp add: b2_def m_def k_def a_def)
  qed
  from s1 s2 s3 show ?thesis unfolding sx_def sy_def by blast
qed

theorem append_append_witness:
  "buffer_inv (byte_buffer_t_size 64 (replicate 1500 0) 100) \<and>
   length (buffer (byte_buffer_t_size 64 (replicate 1500 0) 100)) < 2 ^ 32 \<and>
   int (length [1, 2 :: byte]) + int (length [3 :: byte])
     \<le> uint (get_tailroom (byte_buffer_t_size 64 (replicate 1500 0) 100)) \<and>
   (\<exists>b1 b2. append_bytes (byte_buffer_t_size 64 (replicate 1500 0) 100) [1, 2] 2 = Inr b1 \<and>
      append_bytes b1 [3] 1 = Inr b2 \<and>
      append_bytes (byte_buffer_t_size 64 (replicate 1500 0) 100) [1, 2, 3] 3 = Inr b2)"
  using append_append [of "byte_buffer_t_size 64 (replicate 1500 0) 100" "[1, 2]" "[3]"]
  by (simp add: buffer_inv_def tailroom_int byte_buffer_t_size_def)


subsection \<open>C6: construction with a size that fits\<close>

text \<open>
  C6. For every size with \<open>size \<le> capacity - default_margin\<close>, the buffer constructed
  with that size has \<open>N_bytes = size\<close> and \<open>get_headroom()\<close> equal to the header offset,
  and its valid region lies inside the array. With size 0 it is the default-constructed
  buffer. The constructor that also fills the valid bytes with a value returns, with the
  same length and headroom and with these bytes as its contents.
\<close>

theorem create_with_size:
  assumes fits: "int hdr + uint sz \<le> int (length mem)"
  shows "N_bytes (byte_buffer_t_size hdr mem sz) = sz \<and>
     size_bytes (byte_buffer_t_size hdr mem sz) = sz \<and>
     msg (byte_buffer_t_size hdr mem sz) = int hdr \<and>
     get_headroom (byte_buffer_t_size hdr mem sz) = word_of_nat hdr \<and>
     (length mem < 2 ^ 32 \<longrightarrow> uint (get_headroom (byte_buffer_t_size hdr mem sz)) = int hdr) \<and>
     buffer_inv (byte_buffer_t_size hdr mem sz) \<and>
     (sz = 0 \<longrightarrow> byte_buffer_t_size hdr mem sz = byte_buffer_t_default hdr mem) \<and>
     (\<exists>b. byte_buffer_t_fill hdr mem sz val = Inr b \<and> N_bytes b = sz \<and>
          msg b = int hdr \<and> get_headroom b = word_of_nat hdr \<and>
          span_bytes b = Inr (replicate (unat sz) val))"
proof -
  let ?b = "byte_buffer_t_size hdr mem sz"
  have f: "N_bytes ?b = sz" "msg ?b = int hdr" "buffer ?b = mem"
    by (simp_all add: byte_buffer_t_size_def)
  have inv: "buffer_inv ?b"
    using fits by (simp add: buffer_inv_def f)
  have h: "get_headroom ?b = word_of_nat hdr"
    by (simp add: get_headroom_def f)
  have hx: "uint (get_headroom ?b) = int hdr" if "length mem < 2 ^ 32"
    using headroom_exact [of ?b] inv that by (simp add: f)
  have d: "?b = byte_buffer_t_default hdr mem" if "sz = 0"
    using that by (simp add: byte_buffer_t_size_def byte_buffer_t_default_def)
  define n where "n = unat sz"
  have un: "uint sz = int n" by (simp add: n_def)
  have room: "hdr + n \<le> length mem"
    using fits unfolding un by linarith
  define a where "a = take hdr mem @ replicate n val @ drop (hdr + n) mem"
  have st: "store mem (int hdr) (replicate n val) = Inr a"
  proof (cases "n = 0")
    case True
    then show ?thesis by (simp add: a_def)
  next
    case False
    then show ?thesis using room by (simp add: store_closed a_def)
  qed
  have fl: "byte_buffer_t_fill hdr mem sz val = Inr (?b\<lparr>buffer := a\<rparr>)"
    using st by (simp add: byte_buffer_t_fill_def Let_def f n_def)
  have sp: "span_bytes (?b\<lparr>buffer := a\<rparr>) = Inr (replicate n val)"
  proof (cases "n = 0")
    case True
    then show ?thesis by (simp add: span_bytes_def make_span_def f n_def)
  next
    case False
    have "length a = length mem" using room by (simp add: a_def)
    moreover have "take n (drop hdr a) = replicate n val"
      using room by (simp add: a_def)
    ultimately show ?thesis
      using False room by (simp add: span_bytes_def make_span_def f load_closed flip: n_def)
  qed
  show ?thesis
  proof (intro conjI impI exI)
    show "byte_buffer_t_fill hdr mem sz val = Inr (?b\<lparr>buffer := a\<rparr>)" by (rule fl)
    show "span_bytes (?b\<lparr>buffer := a\<rparr>) = Inr (replicate (unat sz) val)"
      using sp by (simp add: n_def)
  qed (use inv h hx d in \<open>simp_all add: f size_bytes_def get_headroom_def\<close>)
qed

theorem create_with_size_witness:
  "int 64 + uint (100 :: uint32_t) \<le> int (length (replicate 1500 (0 :: byte))) \<and>
   N_bytes (byte_buffer_t_size 64 (replicate 1500 0) 100) = 100 \<and>
   get_headroom (byte_buffer_t_size 64 (replicate 1500 0) 100) = 64 \<and>
   uint (get_headroom (byte_buffer_t_size 64 (replicate 1500 0) 100)) = 64 \<and>
   (\<exists>b. byte_buffer_t_fill 64 (replicate 1500 0) 100 7 = Inr b \<and> N_bytes b = 100 \<and>
        get_headroom b = 64 \<and> span_bytes b = Inr (replicate 100 7))"
  using create_with_size [of 64 100 "replicate 1500 0" 7]
  by simp blast

subsection \<open>C2: construction with a size that does not fit\<close>

text \<open>
  C2, as stated, does not hold: the constructor stores the size and checks nothing. With
  header offset 64 and an array of 1500 bytes, \<open>byte_buffer_t(1500)\<close> is a buffer of
  length 1500 at headroom 64, although 1500 exceeds 1500 - 64: its valid region ends
  after the end of the array.
\<close>

theorem construct_oversize_counterexample:
  "int (length (replicate 1500 (0 :: byte))) - int 64 < uint (1500 :: uint32_t) \<and>
   N_bytes (byte_buffer_t_size 64 (replicate 1500 0) 1500) = 1500 \<and>
   get_headroom (byte_buffer_t_size 64 (replicate 1500 0) 1500) = 64 \<and>
   int (length (buffer (byte_buffer_t_size 64 (replicate 1500 0) 1500)))
     < msg (byte_buffer_t_size 64 (replicate 1500 0) 1500)
       + uint (N_bytes (byte_buffer_t_size 64 (replicate 1500 0) 1500))"
  by (simp add: byte_buffer_t_size_def get_headroom_def)

text \<open>
  C2, amended. For every requested size, construction returns a buffer with that length,
  the header offset as its headroom, default metadata and an untouched array; no size is
  refused. The length fits after the default headroom exactly when the size is at most
  the capacity minus the header offset.
\<close>

theorem construct_unchecked:
  "N_bytes (byte_buffer_t_size hdr mem sz) = sz \<and>
   msg (byte_buffer_t_size hdr mem sz) = int hdr \<and>
   get_headroom (byte_buffer_t_size hdr mem sz) = word_of_nat hdr \<and>
   buffer (byte_buffer_t_size hdr mem sz) = mem \<and>
   md (byte_buffer_t_size hdr mem sz) = buffer_metadata_t_init \<and>
   (buffer_inv (byte_buffer_t_size hdr mem sz) \<longleftrightarrow> int hdr + uint sz \<le> int (length mem))"
  by (simp add: byte_buffer_t_size_def get_headroom_def buffer_inv_def)

subsection \<open>C3: the invariant along the public operations\<close>

text \<open>
  C3, as stated, does not hold: construction with a size is an operation of the public
  interface, and \<open>byte_buffer_t(1500)\<close> with header offset 64 and capacity 1500 breaks
  \<open>headroom_offset + length \<le> capacity\<close>.
\<close>

theorem invariant_counterexample:
  "\<not> buffer_inv (byte_buffer_t_size 64 (replicate 1500 0) 1500)"
  by (simp add: buffer_inv_def byte_buffer_t_size_def)

text \<open>
  C3, amended. With a header offset that is at most the capacity, the invariant holds
  after default construction and after \<open>clear()\<close>; after construction with a size when
  the size is at most the capacity minus the header offset; and after every filling
  construction, append (from a state where it holds), copy construction and assignment
  (between objects where it holds) whose copy stays inside the arrays, which is when
  these operations return at all. No operation checks or restores it.
\<close>

theorem invariant_in_bounds:
  assumes hdr: "hdr \<le> length mem"
  shows "buffer_inv (byte_buffer_t_default hdr mem) \<and>
    (int hdr + uint sz \<le> int (length mem) \<longrightarrow> buffer_inv (byte_buffer_t_size hdr mem sz)) \<and>
    (\<forall>b. byte_buffer_t_fill hdr mem sz val = Inr b \<longrightarrow> buffer_inv b) \<and>
    (hdr \<le> length (buffer b) \<longrightarrow> buffer_inv (clear hdr b)) \<and>
    (\<forall>b'. buffer_inv b \<and> append_bytes b buf n = Inr b' \<longrightarrow> buffer_inv b') \<and>
    (\<forall>c. byte_buffer_t_copy hdr mem src = Inr c \<longrightarrow> buffer_inv c) \<and>
    (\<forall>h'. (\<forall>x p. h x = Some p \<longrightarrow> buffer_inv p \<and> hdr \<le> length (buffer p)) \<and>
          byte_buffer_t_assign hdr h this other = Inr h' \<longrightarrow>
          (\<forall>x p. h' x = Some p \<longrightarrow> buffer_inv p))"
proof (intro conjI allI impI)
  show "buffer_inv (byte_buffer_t_default hdr mem)"
    using hdr by (simp add: buffer_inv_def byte_buffer_t_default_def)
next
  assume "int hdr + uint sz \<le> int (length mem)"
  then show "buffer_inv (byte_buffer_t_size hdr mem sz)"
    by (simp add: buffer_inv_def byte_buffer_t_size_def)
next
  fix b
  assume f: "byte_buffer_t_fill hdr mem sz val = Inr b"
  then obtain a where st: "store mem (int hdr) (replicate (unat sz) val) = Inr a"
    and b: "b = (byte_buffer_t_size hdr mem sz)\<lparr>buffer := a\<rparr>"
    by (auto simp: byte_buffer_t_fill_def Let_def byte_buffer_t_size_def split: sum.splits)
  have la: "length a = length mem" using st by (rule store_length)
  have "int hdr + uint sz \<le> int (length mem)"
  proof (cases "unat sz = 0")
    case True
    then have "uint sz = 0" by (simp add: unat_eq_zero)
    with hdr show ?thesis by simp
  next
    case False
    then have "replicate (unat sz) val \<noteq> []" by simp
    with st show ?thesis
      by (simp add: store_closed split: if_splits)
  qed
  then show "buffer_inv b"
    by (simp add: b buffer_inv_def byte_buffer_t_size_def la)
next
  assume "hdr \<le> length (buffer b)"
  then show "buffer_inv (clear hdr b)"
    by (simp add: buffer_inv_def clear_def)
next
  fix b'
  assume a: "buffer_inv b \<and> append_bytes b buf n = Inr b'"
  then obtain a' where mc: "memcpy (buffer b) (msg b + uint (N_bytes b)) buf 0 (unat n) = Inr a'"
    and b': "b' = b\<lparr>buffer := a', N_bytes := N_bytes b + n\<rparr>"
    by (auto simp: append_bytes_def split: sum.splits)
  have i: "0 \<le> msg b" "msg b + uint (N_bytes b) \<le> int (length (buffer b))"
    using a by (simp_all add: buffer_inv_def)
  have la: "length a' = length (buffer b)" using mc by (rule memcpy_returns(1))
  have "msg b + uint (N_bytes b + n) \<le> int (length (buffer b))"
  proof (cases "unat n = 0")
    case True
    then have "n = 0" by (simp add: unat_eq_zero)
    with i show ?thesis by simp
  next
    case False
    with mc have "msg b + uint (N_bytes b) + int (unat n) \<le> int (length (buffer b))"
      using memcpy_returns(2) by blast
    moreover have "uint (N_bytes b + n) \<le> uint (N_bytes b) + uint n"
      by (rule uint_add_le)
    ultimately show ?thesis by simp
  qed
  with i(1) show "buffer_inv b'"
    by (simp add: b' buffer_inv_def la)
next
  fix c
  assume "byte_buffer_t_copy hdr mem src = Inr c"
  then obtain a where mc: "memcpy mem (int hdr) (buffer src) (msg src) (unat (N_bytes src)) = Inr a"
    and c: "c = \<lparr>N_bytes = N_bytes src, buffer = a, msg = int hdr, md = md src\<rparr>"
    by (auto simp: byte_buffer_t_copy_def split: sum.splits)
  have la: "length a = length mem" using mc by (rule memcpy_returns(1))
  have "int hdr + uint (N_bytes src) \<le> int (length mem)"
  proof (cases "unat (N_bytes src) = 0")
    case True
    then have "uint (N_bytes src) = 0" by (simp add: unat_eq_zero)
    with hdr show ?thesis by simp
  next
    case False
    with mc have "int hdr + int (unat (N_bytes src)) \<le> int (length mem)"
      using memcpy_returns(2) by blast
    then show ?thesis by simp
  qed
  then show "buffer_inv c"
    by (simp add: c buffer_inv_def la)
next
  fix h' x p
  assume a: "(\<forall>x p. h x = Some p \<longrightarrow> buffer_inv p \<and> hdr \<le> length (buffer p)) \<and>
          byte_buffer_t_assign hdr h this other = Inr h'"
    and p: "h' x = Some p"
  show "buffer_inv p"
  proof (cases "other = this")
    case True
    with a have "h' = h" by (simp add: byte_buffer_t_assign_def)
    with a p show ?thesis by blast
  next
    case False
    with a obtain t s a' where t: "h this = Some t" and s: "h other = Some s"
      and mc: "memcpy (buffer t) (int hdr) (buffer s) (msg s) (unat (N_bytes s)) = Inr a'"
      and h': "h' = h(this \<mapsto> t\<lparr>N_bytes := N_bytes s, buffer := a', msg := int hdr, md := md s\<rparr>)"
      by (auto simp: byte_buffer_t_assign_def split: option.splits sum.splits)
    show ?thesis
    proof (cases "x = this")
      case False
      with h' p have "h x = Some p" by simp
      with a show ?thesis by blast
    next
      case True
      with h' p have pe: "p = t\<lparr>N_bytes := N_bytes s, buffer := a', msg := int hdr, md := md s\<rparr>"
        by simp
      have la: "length a' = length (buffer t)" using mc by (rule memcpy_returns(1))
      have ht: "hdr \<le> length (buffer t)" using a t by blast
      have "int hdr + uint (N_bytes s) \<le> int (length (buffer t))"
      proof (cases "unat (N_bytes s) = 0")
        case True
        then have "uint (N_bytes s) = 0" by (simp add: unat_eq_zero)
        with ht show ?thesis by simp
      next
        case False
        with mc have "int hdr + int (unat (N_bytes s)) \<le> int (length (buffer t))"
          using memcpy_returns(2) by blast
        then show ?thesis by simp
      qed
      then show ?thesis
        by (simp add: pe buffer_inv_def la)
    qed
  qed
qed

theorem invariant_in_bounds_witness:
  "64 \<le> length (replicate 1500 (0 :: byte)) \<and>
   buffer_inv (byte_buffer_t_default 64 (replicate 1500 0)) \<and>
   int 64 + uint (100 :: uint32_t) \<le> int (length (replicate 1500 (0 :: byte))) \<and>
   buffer_inv (byte_buffer_t_size 64 (replicate 1500 0) 100) \<and>
   (\<exists>b. byte_buffer_t_fill 64 (replicate 1500 0) 100 7 = Inr b \<and> buffer_inv b) \<and>
   buffer_inv (clear 64 (byte_buffer_t_size 64 (replicate 1500 0) 100)) \<and>
   (\<exists>b'. append_bytes (byte_buffer_t_size 64 (replicate 1500 0) 100) [1, 2, 3] 3 = Inr b' \<and>
      buffer_inv b') \<and>
   (\<exists>c. byte_buffer_t_copy 64 (replicate 1500 0) (byte_buffer_t_size 64 (replicate 1500 0) 100)
        = Inr c \<and> buffer_inv c) \<and>
   (\<exists>h' p. byte_buffer_t_assign 64
        [0 \<mapsto> byte_buffer_t_default 64 (replicate 1500 0),
         1 \<mapsto> byte_buffer_t_size 64 (replicate 1500 0) 100] 0 1 = Inr h' \<and>
      h' 0 = Some p \<and> buffer_inv p)"
proof -
  let ?mem = "replicate 1500 (0 :: byte)"
  let ?B = "byte_buffer_t_size 64 ?mem 100"
  let ?H = "[0 :: addr \<mapsto> byte_buffer_t_default 64 ?mem, 1 \<mapsto> ?B]"
  note th = invariant_in_bounds [of 64 ?mem 100 7 ?B "[1, 2, 3]" 3 ?B ?H 0 1]
  have f: "\<exists>b. byte_buffer_t_fill 64 ?mem 100 7 = Inr b"
    by (simp add: byte_buffer_t_fill_def byte_buffer_t_size_def store_closed)
  have a: "\<exists>b'. append_bytes ?B [1, 2, 3] 3 = Inr b'"
    by (simp add: append_bytes_def memcpy_def load_closed store_closed byte_buffer_t_size_def)
  have c: "\<exists>c. byte_buffer_t_copy 64 ?mem ?B = Inr c"
    by (simp add: byte_buffer_t_copy_def memcpy_def load_closed store_closed byte_buffer_t_size_def)
  have g: "\<exists>h'. byte_buffer_t_assign 64 ?H 0 1 = Inr h' \<and> (\<exists>p. h' 0 = Some p)"
    by (simp add: byte_buffer_t_assign_def memcpy_def load_closed store_closed
        byte_buffer_t_size_def byte_buffer_t_default_def)
  have i: "buffer_inv ?B" "buffer_inv (byte_buffer_t_default 64 ?mem)"
    by (simp_all add: buffer_inv_def byte_buffer_t_size_def byte_buffer_t_default_def)
  have l: "64 \<le> length (buffer ?B)" "64 \<le> length ?mem"
    "int 64 + uint (100 :: uint32_t) \<le> int (length ?mem)"
    by (simp_all add: byte_buffer_t_size_def)
  have hp: "\<forall>x p. ?H x = Some p \<longrightarrow> buffer_inv p \<and> 64 \<le> length (buffer p)"
    using i by (auto simp: byte_buffer_t_size_def byte_buffer_t_default_def split: if_splits)
  from g obtain h' p where g': "byte_buffer_t_assign 64 ?H 0 1 = Inr h'" "h' 0 = Some p"
    by blast
  from th l(2) hp g' have "buffer_inv p" by blast
  with g' have G: "\<exists>h' p. byte_buffer_t_assign 64 ?H 0 1 = Inr h' \<and> h' 0 = Some p \<and> buffer_inv p"
    by blast
  from th l(2) f have F: "\<exists>b. byte_buffer_t_fill 64 ?mem 100 7 = Inr b \<and> buffer_inv b"
    by blast
  from th l(2) a i(1) have A: "\<exists>b'. append_bytes ?B [1, 2, 3] 3 = Inr b' \<and> buffer_inv b'"
    by blast
  from th l(2) c have C: "\<exists>c. byte_buffer_t_copy 64 ?mem ?B = Inr c \<and> buffer_inv c"
    by blast
  from th l have K: "buffer_inv (clear 64 ?B)" by blast
  from l i F K A C G show ?thesis by blast
qed

subsection \<open>C4: copies\<close>

text \<open>
  C4, as stated, does not hold, in two ways. A buffer with 60 bytes of headroom and 1440
  valid bytes (capacity 1500, header offset 64) satisfies the invariant, but copying it
  puts 1440 bytes at offset 64 of the new array and runs 4 bytes past its end. And
  assigning a buffer to itself returns at once, so that its headroom stays 60 and is not
  the header offset 64.
\<close>

theorem copy_counterexample:
  "buffer_inv \<lparr>N_bytes = 1440, buffer = replicate 1500 0, msg = 60, md = buffer_metadata_t_init\<rparr> \<and>
   byte_buffer_t_copy 64 (replicate 1500 0)
     \<lparr>N_bytes = 1440, buffer = replicate 1500 0, msg = 60, md = buffer_metadata_t_init\<rparr>
     = Inl Undefined_behaviour \<and>
   byte_buffer_t_assign 64
     [0 \<mapsto> \<lparr>N_bytes = 1440, buffer = replicate 1500 0, msg = 60, md = buffer_metadata_t_init\<rparr>] 0 0
     = Inr [0 \<mapsto> \<lparr>N_bytes = 1440, buffer = replicate 1500 0, msg = 60, md = buffer_metadata_t_init\<rparr>] \<and>
   get_headroom \<lparr>N_bytes = 1440, buffer = replicate 1500 0, msg = 60, md = buffer_metadata_t_init\<rparr>
     \<noteq> word_of_nat 64"
  by (simp add: buffer_inv_def byte_buffer_t_copy_def byte_buffer_t_assign_def memcpy_def
      load_closed store_closed get_headroom_def)

text \<open>
  C4, amended. For every source buffer whose valid region lies inside its array and
  whose length is at most the capacity minus the header offset, copy construction, and
  assignment to a different object, return a buffer with the length of the source, the
  valid bytes of the source, the metadata of the source, and the header offset as its
  headroom, whatever the headroom of the source.
\<close>

theorem copy_normalises_headroom:
  assumes inv: "buffer_inv src"
    and fits: "int hdr + uint (N_bytes src) \<le> int (length mem)"
  shows "(\<exists>c bs. byte_buffer_t_copy hdr mem src = Inr c \<and>
            N_bytes c = N_bytes src \<and>
            span_bytes src = Inr bs \<and> span_bytes c = Inr bs \<and>
            md c = md src \<and>
            msg c = int hdr \<and> get_headroom c = word_of_nat hdr \<and> buffer_inv c) \<and>
         (this \<noteq> buf \<and> h this = Some t \<and> h buf = Some src \<and>
          length (buffer t) = length mem \<longrightarrow>
          (\<exists>c bs. byte_buffer_t_assign hdr h this buf = Inr (h(this \<mapsto> c)) \<and>
            N_bytes c = N_bytes src \<and>
            span_bytes src = Inr bs \<and> span_bytes c = Inr bs \<and>
            md c = md src \<and>
            msg c = int hdr \<and> get_headroom c = word_of_nat hdr \<and> buffer_inv c))"
proof (intro conjI impI)
  let ?bs = "take (unat (N_bytes src)) (drop (nat (msg src)) (buffer src))"
  have ss: "span_bytes src = Inr ?bs"
    using inv by (rule span_bytes_closed)
  from copy_into [OF inv fits] obtain a where
    a: "memcpy mem (int hdr) (buffer src) (msg src) (unat (N_bytes src)) = Inr a"
       "length a = length mem" "load a (int hdr) (unat (N_bytes src)) = Inr ?bs"
    by blast
  let ?c = "\<lparr>N_bytes = N_bytes src, buffer = a, msg = int hdr, md = md src\<rparr>"
  have "byte_buffer_t_copy hdr mem src = Inr ?c"
    using a(1) by (simp add: byte_buffer_t_copy_def)
  moreover have "span_bytes ?c = Inr ?bs"
    using a(3) by (simp add: span_bytes_def make_span_def)
  moreover have "buffer_inv ?c"
    using fits a(2) by (simp add: buffer_inv_def)
  moreover have "get_headroom ?c = word_of_nat hdr"
    by (simp add: get_headroom_def)
  ultimately show "\<exists>c bs. byte_buffer_t_copy hdr mem src = Inr c \<and>
            N_bytes c = N_bytes src \<and>
            span_bytes src = Inr bs \<and> span_bytes c = Inr bs \<and>
            md c = md src \<and>
            msg c = int hdr \<and> get_headroom c = word_of_nat hdr \<and> buffer_inv c"
    using ss by (intro exI [of _ ?c] exI [of _ ?bs]) simp
next
  assume h: "this \<noteq> buf \<and> h this = Some t \<and> h buf = Some src \<and>
          length (buffer t) = length mem"
  let ?bs = "take (unat (N_bytes src)) (drop (nat (msg src)) (buffer src))"
  have ss: "span_bytes src = Inr ?bs"
    using inv by (rule span_bytes_closed)
  have fits': "int hdr + uint (N_bytes src) \<le> int (length (buffer t))"
    using fits h by simp
  from copy_into [OF inv fits'] obtain a where
    a: "memcpy (buffer t) (int hdr) (buffer src) (msg src) (unat (N_bytes src)) = Inr a"
       "length a = length (buffer t)" "load a (int hdr) (unat (N_bytes src)) = Inr ?bs"
    by blast
  let ?c = "t\<lparr>N_bytes := N_bytes src, buffer := a, msg := int hdr, md := md src\<rparr>"
  have "byte_buffer_t_assign hdr h this buf = Inr (h(this \<mapsto> ?c))"
    using a(1) h by (simp add: byte_buffer_t_assign_def)
  moreover have "span_bytes ?c = Inr ?bs"
    using a(3) by (simp add: span_bytes_def make_span_def)
  moreover have "buffer_inv ?c"
    using fits' a(2) by (simp add: buffer_inv_def)
  moreover have "get_headroom ?c = word_of_nat hdr"
    by (simp add: get_headroom_def)
  ultimately show "\<exists>c bs. byte_buffer_t_assign hdr h this buf = Inr (h(this \<mapsto> c)) \<and>
            N_bytes c = N_bytes src \<and>
            span_bytes src = Inr bs \<and> span_bytes c = Inr bs \<and>
            md c = md src \<and>
            msg c = int hdr \<and> get_headroom c = word_of_nat hdr \<and> buffer_inv c"
    using ss by (intro exI [of _ ?c] exI [of _ ?bs]) simp
qed

theorem copy_normalises_headroom_witness:
  "buffer_inv \<lparr>N_bytes = 4, buffer = replicate 60 0 @ [1, 2, 3, 4] @ replicate 1436 0,
      msg = 60, md = buffer_metadata_t_init\<rparr> \<and>
   int 64 + uint (4 :: uint32_t) \<le> int (length (replicate 1500 (0 :: byte))) \<and>
   (\<exists>c. byte_buffer_t_copy 64 (replicate 1500 0)
          \<lparr>N_bytes = 4, buffer = replicate 60 0 @ [1, 2, 3, 4] @ replicate 1436 0,
            msg = 60, md = buffer_metadata_t_init\<rparr> = Inr c \<and>
        N_bytes c = 4 \<and> span_bytes c = Inr [1, 2, 3, 4] \<and> md c = buffer_metadata_t_init \<and>
        get_headroom c = 64) \<and>
   (\<exists>c. byte_buffer_t_assign 64
          [0 \<mapsto> byte_buffer_t_default 64 (replicate 1500 0),
           1 \<mapsto> \<lparr>N_bytes = 4, buffer = replicate 60 0 @ [1, 2, 3, 4] @ replicate 1436 0,
                   msg = 60, md = buffer_metadata_t_init\<rparr>] 0 1
          = Inr [0 \<mapsto> c,
                 1 \<mapsto> \<lparr>N_bytes = 4, buffer = replicate 60 0 @ [1, 2, 3, 4] @ replicate 1436 0,
                   msg = 60, md = buffer_metadata_t_init\<rparr>] \<and>
        N_bytes c = 4 \<and> span_bytes c = Inr [1, 2, 3, 4] \<and> md c = buffer_metadata_t_init \<and>
        get_headroom c = 64)"
proof -
  let ?mem = "replicate 1500 (0 :: byte)"
  let ?S = "\<lparr>N_bytes = 4, buffer = replicate 60 0 @ [1, 2, 3, 4] @ replicate 1436 0,
      msg = 60, md = buffer_metadata_t_init\<rparr>"
  let ?D = "byte_buffer_t_default 64 ?mem"
  let ?H = "[0 :: addr \<mapsto> ?D, 1 \<mapsto> ?S]"
  have i: "buffer_inv ?S" by (simp add: buffer_inv_def)
  have l: "int 64 + uint (N_bytes ?S) \<le> int (length ?mem)" by simp
  have s: "span_bytes ?S = Inr [1, 2, 3, 4]"
    by (simp add: span_bytes_def make_span_def load_closed)
  have hh: "(0 :: nat) \<noteq> 1 \<and> ?H 0 = Some ?D \<and> ?H 1 = Some ?S \<and>
      length (buffer ?D) = length ?mem"
    by (simp add: byte_buffer_t_default_def)
  have u: "?H(0 \<mapsto> c) = [0 \<mapsto> c, 1 \<mapsto> ?S]" for c
    by (rule ext) simp
  from copy_normalises_headroom [OF i l, of 0 1 ?H ?D] hh
  show ?thesis
    unfolding s u using i by (simp del: fun_upd_apply) blast
qed

end
